theory Spec2Isabelle
  imports Main "HOL-Library.Multiset"
begin

unbundle bit_operations_syntax

section \<open>Data model\<close>

text \<open>
  The game of Nim of \<^verbatim>\<open>game.cpp\<close>. A \<^verbatim>\<open>Node\<close> is one state of the game: the
  piles, the player to move (1 is the human, 2 is the AI), the minimax score and the
  child states generated so far. The C++ \<^verbatim>\<open>int\<close> is modelled by \<^typ>\<open>int\<close>: on
  piles below \<^verbatim>\<open>INT_MAX\<close> no operation of the source leaves the range of a 32-bit
  integer (a pile only shrinks, and \<^verbatim>\<open>take\<close> counts up to one past the pile), so no
  wrap-around is written out. At a pile equal to \<^verbatim>\<open>INT_MAX\<close> the test
  \<^verbatim>\<open>take <= p[i]\<close> holds for every \<^verbatim>\<open>int\<close> and \<^verbatim>\<open>++take\<close> overflows, so the loop of
  the source has no exit there; every theorem below about a board that enters that loop
  carries the hypothesis that the piles are below \<^verbatim>\<open>INT_MAX\<close>. The nodes the source allocates on the heap are
  owned by their parent and never shared, so a node is a tree and a function that
  mutates a node returns the node it leaves behind.
\<close>

datatype Node = Node (piles: "int list") (player: int) (score: int) (children: "Node list")

text \<open>The constructor \<^verbatim>\<open>Node(p, pl)\<close>: score 0 and no children.\<close>

definition new_Node :: "int list \<Rightarrow> int \<Rightarrow> Node" where
  "new_Node p pl = Node p pl 0 []"

definition INT_MIN :: int where
  "INT_MIN = - 2147483648"

definition INT_MAX :: int where
  "INT_MAX = 2147483647"

text \<open>The memo table \<^verbatim>\<open>unordered_map<string, int>\<close>.\<close>

type_synonym memo_table = "string \<rightharpoonup> int"

fun is_terminal :: "int list \<Rightarrow> bool" where
  "is_terminal [] = True"
| "is_terminal (x # xs) = (if x \<noteq> 0 then False else is_terminal xs)"

text \<open>
  \<^verbatim>\<open>std::to_string\<close> on an \<^verbatim>\<open>int\<close>: the decimal digits, most significant first, after
  a minus sign for a negative number.
\<close>

definition digit_char :: "nat \<Rightarrow> char" where
  "digit_char d = ''0123456789'' ! d"

fun digits :: "nat \<Rightarrow> string" where
  "digits n = (if n < 10 then [digit_char n] else digits (n div 10) @ [digit_char (n mod 10)])"

declare digits.simps [simp del]

definition to_string :: "int \<Rightarrow> string" where
  "to_string v = (if v < 0 then CHR ''-'' # digits (nat (- v)) else digits (nat v))"

text \<open>
  \<^verbatim>\<open>key_of\<close> sorts a copy of the piles, appends each value followed by a comma, and
  ends with \<^verbatim>\<open>|P\<close> and the player. The argument is a \<^verbatim>\<open>const\<close> reference: the caller's
  sequence is read and nothing else.
\<close>

fun key_loop :: "int list \<Rightarrow> string \<Rightarrow> string" where
  "key_loop [] k = k"
| "key_loop (v # s) k = key_loop s (k @ to_string v @ '','')"

definition key_of :: "int list \<Rightarrow> int \<Rightarrow> string" where
  "key_of ps pl = (let s = sort ps; k = key_loop s [] in k @ ''|P'' @ to_string pl)"

section \<open>Child generation\<close>

text \<open>
  \<^verbatim>\<open>generate_children\<close> appends to \<^verbatim>\<open>node->children\<close>. The inner loop runs \<^verbatim>\<open>take\<close> from 1
  while \<^verbatim>\<open>take <= p[i]\<close>, the outer loop runs over the pile indices and skips a pile
  that is 0.
\<close>

definition push_back :: "Node \<Rightarrow> Node \<Rightarrow> Node" where
  "push_back node child = Node (piles node) (player node) (score node) (children node @ [child])"

lemma piles_push_back [simp]: "piles (push_back node c) = piles node"
  by (simp add: push_back_def)

function take_loop :: "Node \<Rightarrow> nat \<Rightarrow> int \<Rightarrow> Node" where
  "take_loop node i tk =
     (if tk \<le> piles node ! i
      then take_loop
             (push_back node (new_Node ((piles node)[i := piles node ! i - tk])
                                       (if player node = 1 then 2 else 1)))
             i (tk + 1)
      else node)"
  by pat_completeness auto
termination
  by (relation "measure (\<lambda>(node, i, tk). nat (piles node ! i + 1 - tk))") auto

declare take_loop.simps [simp del]

lemma piles_take_loop [simp]: "piles (take_loop node i tk) = piles node"
  by (induction node i tk rule: take_loop.induct) (subst take_loop.simps, simp)

function pile_loop :: "Node \<Rightarrow> nat \<Rightarrow> Node" where
  "pile_loop node i =
     (if i < length (piles node)
      then (if piles node ! i = 0 then pile_loop node (i + 1)
            else pile_loop (take_loop node i 1) (i + 1))
      else node)"
  by pat_completeness auto
termination pile_loop
  by (relation "measure (\<lambda>(node, i). length (piles node) - i)") auto

declare pile_loop.simps [simp del]

definition generate_children :: "Node \<Rightarrow> Node" where
  "generate_children node = pile_loop node 0"

subsection \<open>Closed form of the child generator\<close>

definition opponent :: "int \<Rightarrow> int" where
  "opponent pl = (if pl = 1 then 2 else 1)"

definition child_of :: "int list \<Rightarrow> int \<Rightarrow> nat \<Rightarrow> int \<Rightarrow> Node" where
  "child_of p pl i tk = new_Node (p[i := p ! i - tk]) (opponent pl)"

definition moves_of :: "int list \<Rightarrow> int \<Rightarrow> nat \<Rightarrow> Node list" where
  "moves_of p pl i = concat (map (\<lambda>j. map (child_of p pl j) [1..p ! j]) [i..<length p])"

lemma player_push_back [simp]: "player (push_back node c) = player node"
  by (simp add: push_back_def)

lemma score_push_back [simp]: "score (push_back node c) = score node"
  by (simp add: push_back_def)

lemma children_push_back [simp]: "children (push_back node c) = children node @ [c]"
  by (simp add: push_back_def)

lemma take_loop_frame [simp]:
  "player (take_loop node i tk) = player node" "score (take_loop node i tk) = score node"
  by (induction node i tk rule: take_loop.induct; subst take_loop.simps; simp)+

lemma children_take_loop:
  "children (take_loop node i tk) =
     children node @ map (child_of (piles node) (player node) i) [tk..piles node ! i]"
proof (induction node i tk rule: take_loop.induct)
  case (1 node i tk)
  show ?case
  proof (cases "tk \<le> piles node ! i")
    case True
    then have "[tk..piles node ! i] = tk # [tk + 1..piles node ! i]"
      by (simp add: upto_rec1)
    with True 1 show ?thesis
      by (subst take_loop.simps) (simp add: child_of_def opponent_def)
  next
    case False
    then show ?thesis
      by (subst take_loop.simps) simp
  qed
qed

lemma pile_loop_frame [simp]:
  "piles (pile_loop node i) = piles node" "player (pile_loop node i) = player node"
  "score (pile_loop node i) = score node"
  by (induction node i rule: pile_loop.induct; subst pile_loop.simps; simp)+

lemma children_pile_loop:
  "children (pile_loop node i) = children node @ moves_of (piles node) (player node) i"
proof (induction node i rule: pile_loop.induct)
  case (1 node i)
  show ?case
  proof (cases "i < length (piles node)")
    case True
    then have up: "[i..<length (piles node)] = i # [i + 1..<length (piles node)]"
      by (simp add: upt_conv_Cons)
    show ?thesis
    proof (cases "piles node ! i = 0")
      case True
      with \<open>i < length (piles node)\<close> 1(1) up show ?thesis
        by (subst pile_loop.simps) (simp add: moves_of_def)
    next
      case False
      with \<open>i < length (piles node)\<close> 1(2) up show ?thesis
        by (subst pile_loop.simps) (simp add: moves_of_def children_take_loop)
    qed
  next
    case False
    then show ?thesis
      by (subst pile_loop.simps) (simp add: moves_of_def)
  qed
qed

lemma generate_children_frame [simp]:
  "piles (generate_children node) = piles node" "player (generate_children node) = player node"
  "score (generate_children node) = score node"
  by (simp_all add: generate_children_def)

lemma children_generate_children:
  "children (generate_children node) = children node @ moves_of (piles node) (player node) 0"
  by (simp add: generate_children_def children_pile_loop)

section \<open>Terminal score\<close>

definition terminal_score :: "int \<Rightarrow> int" where
  "terminal_score player_to_move = (if player_to_move = 2 then - 1 else 1)"

section \<open>The evaluator\<close>

text \<open>
  \<^verbatim>\<open>minimax\<close> returns the score and leaves behind the node (its score set, its children
  generated and evaluated) and the memo table. The two loops of the source differ in
  \<^verbatim>\<open>max\<close> with \<^verbatim>\<open>INT_MIN\<close> against \<^verbatim>\<open>min\<close> with \<^verbatim>\<open>INT_MAX\<close> only; \<open>minimax_loop\<close> is
  the loop with that operation as its first argument. The recursion terminates because
  a generated child holds fewer objects than its parent; \<open>height\<close> bounds the depth
  of the calls below a node, whatever children it already has.
\<close>

fun total_objects :: "int list \<Rightarrow> nat" where
  "total_objects [] = 0"
| "total_objects (v # p) = nat v + total_objects p"

fun height :: "Node \<Rightarrow> nat" where
  "height (Node p pl s cs) = Suc (max (total_objects p) (foldr (\<lambda>c m. max (height c) m) cs 0))"

definition heights :: "Node list \<Rightarrow> nat" where
  "heights cs = foldr (\<lambda>c m. max (height c) m) cs 0"

lemma heights_simps [simp]:
  "heights [] = 0" "heights (c # cs) = max (height c) (heights cs)"
  "heights (cs @ ds) = max (heights cs) (heights ds)"
  by (induction cs) (simp_all add: heights_def)

lemma height_eq: "height node = Suc (max (total_objects (piles node)) (heights (children node)))"
  by (cases node) (simp add: heights_def)

lemma total_objects_update:
  "i < length p \<Longrightarrow> 1 \<le> tk \<Longrightarrow> tk \<le> p ! i \<Longrightarrow>
   total_objects (p[i := p ! i - tk]) < total_objects p"
proof (induction p arbitrary: i)
  case Nil
  then show ?case by simp
next
  case (Cons v p)
  then show ?case by (cases i) auto
qed

lemma heights_le: "(\<And>c. c \<in> set cs \<Longrightarrow> height c \<le> n) \<Longrightarrow> heights cs \<le> n"
  by (induction cs) auto

lemma height_child_of:
  "i < length p \<Longrightarrow> 1 \<le> tk \<Longrightarrow> tk \<le> p ! i \<Longrightarrow> height (child_of p pl i tk) \<le> total_objects p"
  using total_objects_update [of i p tk] by (simp add: child_of_def new_Node_def)

lemma heights_moves_of: "heights (moves_of p pl i) \<le> total_objects p"
  by (rule heights_le) (auto simp: moves_of_def height_child_of)

lemma heights_generate_children: "heights (children (generate_children node)) < height node"
  using heights_moves_of [of "piles node" "player node" 0]
  by (simp add: children_generate_children height_eq less_Suc_eq_le max.coboundedI1 max.coboundedI2)

definition set_score :: "Node \<Rightarrow> int \<Rightarrow> Node" where
  "set_score node v = Node (piles node) (player node) v (children node)"

definition set_children :: "Node \<Rightarrow> Node list \<Rightarrow> Node" where
  "set_children node cs = Node (piles node) (player node) (score node) cs"

function minimax :: "Node \<Rightarrow> memo_table \<Rightarrow> int \<times> Node \<times> memo_table"
  and minimax_loop :: "(int \<Rightarrow> int \<Rightarrow> int) \<Rightarrow> Node list \<Rightarrow> int \<Rightarrow> memo_table
                         \<Rightarrow> int \<times> Node list \<times> memo_table"
where
  "minimax node memo =
     (if is_terminal (piles node) then
        (let node' = set_score node (terminal_score (player node))
         in (score node', node', memo))
      else
        (let K = key_of (piles node) (player node) in
         case memo K of
           Some v \<Rightarrow> (v, node, memo)
         | None \<Rightarrow>
            (let node1 = generate_children node in
             if player node1 = 2 then
               (case minimax_loop max (children node1) INT_MIN memo of
                  (best, cs, memo') \<Rightarrow>
                    (let node2 = set_score (set_children node1 cs) best
                     in (score node2, node2, memo'(K \<mapsto> score node2))))
             else
               (case minimax_loop min (children node1) INT_MAX memo of
                  (best, cs, memo') \<Rightarrow>
                    (let node2 = set_score (set_children node1 cs) best
                     in (score node2, node2, memo'(K \<mapsto> score node2)))))))"
| "minimax_loop f [] best memo = (best, [], memo)"
| "minimax_loop f (c # cs) best memo =
     (case minimax c memo of
        (v, c', memo') \<Rightarrow>
          (case minimax_loop f cs (f best v) memo' of
             (best', cs', memo'') \<Rightarrow> (best', c' # cs', memo'')))"
  by pat_completeness auto
termination minimax
proof (relation "inv_image (less_than <*lex*> less_than)
          (\<lambda>x. case x of Inl (node, memo) \<Rightarrow> (2 * height node, 0)
                     | Inr (f, cs, best, memo) \<Rightarrow> (2 * heights cs + 1, length cs))",
       goal_cases)
  case 1
  then show ?case by (simp add: wf_inv_image wf_lex_prod)
next
  case (2 node memo K node1)
  then show ?case using heights_generate_children [of node] by simp
next
  case (3 node memo K node1)
  then show ?case using heights_generate_children [of node] by simp
next
  case 4
  then show ?case by (auto simp: max_def)
next
  case 5
  then show ?case by (auto simp: max_def)
qed

declare minimax.simps [simp del]

section \<open>Best-move selection\<close>

text \<open>
  \<open>find_changed\<close> is the inner loop of \<^verbatim>\<open>best_ai_move\<close> that looks for the first pile in
  which the child differs from the board, \<open>select_loop\<close> the loop over the children of
  the root. A child's piles are as long as the board's, so every index read is in range.
\<close>

function find_changed :: "int list \<Rightarrow> int list \<Rightarrow> nat \<Rightarrow> int \<times> int \<Rightarrow> int \<times> int" where
  "find_changed cp ps i bestMove =
     (if i < length ps
      then (if cp ! i \<noteq> ps ! i then (int i, ps ! i - cp ! i)
            else find_changed cp ps (i + 1) bestMove)
      else bestMove)"
  by pat_completeness auto
termination
  by (relation "measure (\<lambda>(cp, ps, i, bestMove). length ps - i)") auto

declare find_changed.simps [simp del]

fun select_loop :: "int list \<Rightarrow> Node list \<Rightarrow> int \<Rightarrow> int \<times> int \<Rightarrow> memo_table \<Rightarrow> int \<times> int" where
  "select_loop ps [] bestScore bestMove memo = bestMove"
| "select_loop ps (c # cs) bestScore bestMove memo =
     (case minimax c memo of
        (val, c', memo') \<Rightarrow>
          if val > bestScore
          then select_loop ps cs val (find_changed (piles c') ps 0 bestMove) memo'
          else select_loop ps cs bestScore bestMove memo')"

definition best_ai_move :: "int list \<Rightarrow> int \<times> int" where
  "best_ai_move ps =
     (case minimax (new_Node ps 2) Map.empty of
        (v, root, memo) \<Rightarrow>
          (let root' = generate_children (set_children root [])
           in select_loop ps (children root') INT_MIN (- 1, - 1) memo))"

section \<open>Reference evaluator without a memo table\<close>

text \<open>
  The plain recursive minimax on a state (piles and player to move): the terminal rule,
  then the maximum (AI to move) or the minimum (otherwise) over the scores of the
  children, with the accumulators of the source and no memo table.
\<close>

function plain_minimax :: "int list \<Rightarrow> int \<Rightarrow> int" where
  "plain_minimax p pl =
     (if is_terminal p then terminal_score pl
      else if pl = 2
      then foldl (\<lambda>best c. max best (plain_minimax (piles c) (player c))) INT_MIN
             (children (generate_children (new_Node p pl)))
      else foldl (\<lambda>best c. min best (plain_minimax (piles c) (player c))) INT_MAX
             (children (generate_children (new_Node p pl))))"
  by pat_completeness auto
termination
proof (relation "measure (\<lambda>(p, pl). total_objects p)", goal_cases)
  case 1
  then show ?case by simp
next
  case (2 p pl best c)
  then show ?case
    using total_objects_update
    by (auto simp: children_generate_children new_Node_def moves_of_def child_of_def)
next
  case (3 p pl best c)
  then show ?case
    using total_objects_update
    by (auto simp: children_generate_children new_Node_def moves_of_def child_of_def)
qed

declare plain_minimax.simps [simp del]

section \<open>Reference notions\<close>

text \<open>
  The nim-sum of a board: the bitwise exclusive or of its piles.
\<close>

fun nim_sum :: "int list \<Rightarrow> int" where
  "nim_sum [] = 0"
| "nim_sum (v # p) = v XOR nim_sum p"

text \<open>
  The score Nim theory predicts, from the AI's side: the player to move loses (the
  terminal score of that player) when the nim-sum is 0 and wins otherwise.
\<close>

definition nim_value :: "int list \<Rightarrow> int \<Rightarrow> int" where
  "nim_value p pl = (if nim_sum p = 0 then terminal_score pl else - terminal_score pl)"

text \<open>
  The memo tables that prior evaluations can leave behind: the empty table, and the
  table left by \<open>minimax\<close> on a node without children (as every node the program
  evaluates is) whose piles are below \<^verbatim>\<open>INT_MAX\<close>, started from such a table.
\<close>

inductive populated :: "memo_table \<Rightarrow> bool" where
  populated_empty: "populated Map.empty"
| populated_minimax:
    "populated memo \<Longrightarrow> \<forall>v\<in>set p. v < INT_MAX \<Longrightarrow>
     populated (snd (snd (minimax (Node p pl s []) memo)))"

text \<open>
  A memo table is sound when every entry stored under the key of a state is the plain
  minimax value of that state. The scores of the children of a state are collected in
  \<open>child_values\<close>.
\<close>

definition memo_sound :: "memo_table \<Rightarrow> bool" where
  "memo_sound memo \<longleftrightarrow> (\<forall>p pl v. memo (key_of p pl) = Some v \<longrightarrow> v = plain_minimax p pl)"

definition child_values :: "int list \<Rightarrow> int \<Rightarrow> int set" where
  "child_values p pl = (\<lambda>c. plain_minimax (piles c) (player c)) ` set (moves_of p pl 0)"

text \<open>
  The depth of the tree below a node, and of a list of nodes hanging below a parent. Every
  recursive call of \<open>minimax\<close> is on a child of the node of the calling one and leaves
  that child, with what the call hung below it, among the children of the node it
  returns; a call that does not recurse hangs nothing below its node. So the depth of
  the tree that \<open>minimax\<close> leaves below a node that had no children is the depth its
  recursion reached.
\<close>

fun tree_depth :: "Node \<Rightarrow> nat" where
  "tree_depth (Node p pl s cs) = foldr (\<lambda>c m. max (Suc (tree_depth c)) m) cs 0"

definition forest_depth :: "Node list \<Rightarrow> nat" where
  "forest_depth cs = foldr (\<lambda>c m. max (Suc (tree_depth c)) m) cs 0"

text \<open>A move (pile index, amount) is legal on a board.\<close>

definition legal_move :: "int list \<Rightarrow> int \<times> int \<Rightarrow> bool" where
  "legal_move ps mv \<longleftrightarrow>
     0 \<le> fst mv \<and> fst mv < int (length ps) \<and> 1 \<le> snd mv \<and> snd mv \<le> ps ! nat (fst mv)"

section \<open>Basic facts\<close>

lemma is_terminal_iff: "is_terminal ps \<longleftrightarrow> (\<forall>v\<in>set ps. v = 0)"
  by (induction ps) auto

lemma moves_of_terminal: "is_terminal p \<Longrightarrow> moves_of p pl i = []"
proof -
  assume "is_terminal p"
  then have "p ! j = 0" if "j < length p" for j
    using that by (simp add: is_terminal_iff)
  then show ?thesis by (simp add: moves_of_def)
qed

lemma key_of_mset: "mset p = mset q \<Longrightarrow> key_of p pl = key_of q pl"
proof -
  assume "mset p = mset q"
  then have "sort p = sort q"
    by (metis sorted_list_of_multiset_mset)
  then show ?thesis by (simp add: key_of_def)
qed

lemma child_of_sel [simp]:
  "piles (child_of p pl i tk) = p[i := p ! i - tk]" "player (child_of p pl i tk) = opponent pl"
  "children (child_of p pl i tk) = []" "score (child_of p pl i tk) = 0"
  by (simp_all add: child_of_def new_Node_def)

lemma set_score_sel [simp]:
  "piles (set_score node v) = piles node" "player (set_score node v) = player node"
  "score (set_score node v) = v" "children (set_score node v) = children node"
  by (simp_all add: set_score_def)

lemma set_children_sel [simp]:
  "piles (set_children node cs) = piles node" "player (set_children node cs) = player node"
  "score (set_children node cs) = score node" "children (set_children node cs) = cs"
  by (simp_all add: set_children_def)

lemma in_moves_of:
  "c \<in> set (moves_of p pl 0) \<longleftrightarrow>
     (\<exists>i tk. c = child_of p pl i tk \<and> i < length p \<and> 1 \<le> tk \<and> tk \<le> p ! i)"
proof
  assume "c \<in> set (moves_of p pl 0)"
  then obtain i where i: "i \<in> {0..<length p}" and "c \<in> child_of p pl i ` {1..p ! i}"
    unfolding moves_of_def set_concat set_map image_image set_upt set_upto by blast
  then obtain tk where "tk \<in> {1..p ! i}" "c = child_of p pl i tk"
    by blast
  with i have "c = child_of p pl i tk \<and> i < length p \<and> 1 \<le> tk \<and> tk \<le> p ! i"
    by simp
  then show "\<exists>i tk. c = child_of p pl i tk \<and> i < length p \<and> 1 \<le> tk \<and> tk \<le> p ! i"
    by blast
next
  assume "\<exists>i tk. c = child_of p pl i tk \<and> i < length p \<and> 1 \<le> tk \<and> tk \<le> p ! i"
  then obtain i tk where "c = child_of p pl i tk" "i < length p" "1 \<le> tk" "tk \<le> p ! i"
    by blast
  then have "i \<in> {0..<length p}" "c \<in> child_of p pl i ` {1..p ! i}"
    by simp_all
  then show "c \<in> set (moves_of p pl 0)"
    unfolding moves_of_def set_concat set_map image_image set_upt set_upto by blast
qed

lemma moves_of_fresh: "c \<in> set (moves_of p pl i) \<Longrightarrow> children c = []"
  by (auto simp: moves_of_def)

lemma moves_of_player: "c \<in> set (moves_of p pl 0) \<Longrightarrow> player c = opponent pl"
  unfolding in_moves_of by auto

lemma moves_of_nonneg:
  assumes "\<forall>v\<in>set p. 0 \<le> v" "c \<in> set (moves_of p pl 0)"
  shows "\<forall>v\<in>set (piles c). 0 \<le> v"
proof -
  from assms(2) obtain i tk where c: "c = child_of p pl i tk" and i: "i < length p"
    and tk: "1 \<le> tk" "tk \<le> p ! i"
    unfolding in_moves_of by blast
  show ?thesis
  proof
    fix v assume "v \<in> set (piles c)"
    then have "v \<in> insert (p ! i - tk) (set p)"
      using set_update_subset_insert [of p i "p ! i - tk"] by (auto simp: c)
    with assms(1) tk show "0 \<le> v" by auto
  qed
qed

lemma moves_of_unfold:
  "i < length p \<Longrightarrow>
   moves_of p pl i = map (child_of p pl i) [1..p ! i] @ moves_of p pl (Suc i)"
  by (simp add: moves_of_def upt_conv_Cons)

lemma not_terminal_move:
  assumes "\<forall>v\<in>set p. 0 \<le> v" "\<not> is_terminal p"
  shows "moves_of p pl 0 \<noteq> []"
proof -
  from assms(2) obtain v where "v \<in> set p" "v \<noteq> 0"
    by (auto simp: is_terminal_iff)
  then obtain i where i: "i < length p" "p ! i \<noteq> 0"
    by (auto simp: in_set_conv_nth)
  moreover from assms(1) i(1) have "0 \<le> p ! i" using nth_mem [of i p] by blast
  ultimately have "1 \<le> p ! i" by simp
  with i(1) have "child_of p pl i 1 \<in> set (moves_of p pl 0)"
    unfolding in_moves_of by (intro exI [of _ i] exI [of _ 1]) simp
  then show ?thesis by auto
qed

lemma total_objects_eq: "total_objects p = sum_list (map nat p)"
  by (induction p) simp_all

lemma total_objects_mset: "mset p = mset q \<Longrightarrow> total_objects p = total_objects q"
proof -
  assume "mset p = mset q"
  then have "mset (map nat p) = mset (map nat q)" by simp
  then have "sum_mset (mset (map nat p)) = sum_mset (mset (map nat q))" by simp
  then show ?thesis by (simp only: total_objects_eq sum_mset_sum_list)
qed

lemma total_objects_moves_of:
  "c \<in> set (moves_of p pl 0) \<Longrightarrow> total_objects (piles c) < total_objects p"
  unfolding in_moves_of by (auto simp: total_objects_update)

lemma total_objects_take_one:
  "j < length p \<Longrightarrow> 1 \<le> p ! j \<Longrightarrow> Suc (total_objects (p[j := p ! j - 1])) = total_objects p"
proof (induction p arbitrary: j)
  case Nil
  then show ?case by simp
next
  case (Cons a p)
  then show ?case by (cases j) (auto simp: nat_diff_distrib)
qed

lemma total_objects_terminal: "is_terminal p \<Longrightarrow> total_objects p = 0"
  by (induction p) (simp_all split: if_splits)

lemma total_objects_int: "\<forall>v\<in>set p. 0 \<le> v \<Longrightarrow> int (total_objects p) = sum_list p"
  by (induction p) simp_all

lemma is_terminal_mset: "mset p = mset q \<Longrightarrow> is_terminal p = is_terminal q"
  by (simp add: is_terminal_iff) (metis set_mset_mset)

lemma minimax_frame:
  "piles (fst (snd (minimax node memo))) = piles node"
  "player (fst (snd (minimax node memo))) = player node"
  by (subst minimax.simps; simp add: Let_def split: option.split prod.split)+

section \<open>The key determines the state up to the order of the piles\<close>

text \<open>
  The decimal representation is injective, a representation holds no comma and does not
  start with a bar, so the key splits in one way only into the sorted piles and the
  player.
\<close>

lemma less_10_cases: "d < 10 \<Longrightarrow> d \<in> {0, 1, 2, 3, 4, 5, 6, 7, 8, 9::nat}"
  by auto

lemma digit_char_in: "d < 10 \<Longrightarrow> digit_char d \<in> set ''0123456789''"
  by (drule less_10_cases) (auto simp: digit_char_def)

lemma digit_char_inj: "d < 10 \<Longrightarrow> e < 10 \<Longrightarrow> digit_char d = digit_char e \<Longrightarrow> d = e"
  by (drule less_10_cases, drule less_10_cases) (auto simp: digit_char_def)

lemma digits_not_Nil [simp]: "digits n \<noteq> []" "[] \<noteq> digits n"
  by (subst digits.simps, simp)+

lemma set_digits: "set (digits n) \<subseteq> set ''0123456789''"
proof (induction n rule: digits.induct)
  case (1 n)
  show ?case
  proof (cases "n < 10")
    case True
    then show ?thesis
      using digit_char_in [of n] by (subst digits.simps) simp
  next
    case False
    then show ?thesis
      using 1 digit_char_in [of "n mod 10"] by (subst digits.simps) simp
  qed
qed

lemma hd_digits: "hd (digits n) \<in> set ''0123456789''"
proof -
  have "hd (digits n) \<in> set (digits n)"
    by (rule hd_in_set) simp
  with set_digits [of n] show ?thesis by blast
qed

lemma digits_inj: "digits m = digits n \<Longrightarrow> m = n"
proof (induction m arbitrary: n rule: digits.induct)
  case (1 m)
  show ?case
  proof (cases "m < 10")
    case m: True
    show ?thesis
    proof (cases "n < 10")
      case True
      with m 1(2) show ?thesis
        using digit_char_inj [of m n] by (simp add: digits.simps [of m] digits.simps [of n])
    next
      case False
      with m 1(2) show ?thesis
        by (simp add: digits.simps [of m] digits.simps [of n])
    qed
  next
    case m: False
    show ?thesis
    proof (cases "n < 10")
      case True
      with m 1(2) show ?thesis
        by (simp add: digits.simps [of m] digits.simps [of n])
    next
      case False
      with m 1(2) have eq: "digits (m div 10) = digits (n div 10)"
        and d: "digit_char (m mod 10) = digit_char (n mod 10)"
        by (simp_all add: digits.simps [of m] digits.simps [of n])
      from 1(1) [OF m eq] have "m div 10 = n div 10" .
      moreover from d have "m mod 10 = n mod 10"
        by (intro digit_char_inj) simp_all
      ultimately show ?thesis
        by (metis div_mult_mod_eq)
    qed
  qed
qed

lemma to_string_not_Nil [simp]: "to_string v \<noteq> []"
  by (simp add: to_string_def)

lemma set_to_string: "set (to_string v) \<subseteq> set ''-0123456789''"
proof -
  have "set (digits n) \<subseteq> set ''-0123456789''" for n
    using set_digits [of n] by (simp only: list.simps) (rule subset_insertI2)
  then show ?thesis
    by (simp add: to_string_def)
qed

lemma to_string_inj: "to_string a = to_string b \<Longrightarrow> a = b"
proof -
  assume eq: "to_string a = to_string b"
  have nominus: "digits m \<noteq> CHR ''-'' # t" for m t
  proof
    assume "digits m = CHR ''-'' # t"
    then have "hd (digits m) = CHR ''-''" by simp
    with hd_digits [of m] show False by simp
  qed
  show ?thesis
  proof (cases "a < 0")
    case a: True
    show ?thesis
    proof (cases "b < 0")
      case True
      with a eq have "nat (- a) = nat (- b)"
        by (intro digits_inj) (simp add: to_string_def)
      with a True show ?thesis by simp
    next
      case False
      with a eq nominus [of "nat b" "digits (nat (- a))"] show ?thesis
        by (simp add: to_string_def)
    qed
  next
    case a: False
    show ?thesis
    proof (cases "b < 0")
      case True
      with a eq nominus [of "nat a" "digits (nat (- b))"] show ?thesis
        by (simp add: to_string_def)
    next
      case False
      with a eq have "nat a = nat b"
        by (intro digits_inj) (simp add: to_string_def)
      with a False show ?thesis by simp
    qed
  qed
qed

lemma key_loop_eq:
  "key_loop s k @ t = k @ foldr (\<lambda>v r. to_string v @ CHR '','' # r) s t"
  by (induction s arbitrary: k) simp_all

lemma sep_unique:
  "a @ c # r = b @ c # r' \<Longrightarrow> c \<notin> set a \<Longrightarrow> c \<notin> set b \<Longrightarrow> a = b \<and> r = r'"
proof (induction a arbitrary: b)
  case Nil
  then show ?case by (cases b) auto
next
  case (Cons x a)
  then show ?case by (cases b) auto
qed

lemma not_in_to_string: "c \<notin> set ''-0123456789'' \<Longrightarrow> c \<notin> set (to_string v)"
  using set_to_string [of v] by (rule contra_subsetD)

lemma to_string_no_bar: "to_string y @ r \<noteq> CHR ''|'' # t"
proof
  assume "to_string y @ r = CHR ''|'' # t"
  then have "hd (to_string y @ r) = CHR ''|''" by simp
  then have "hd (to_string y) = CHR ''|''" by simp
  moreover have "hd (to_string y) \<in> set (to_string y)"
    by (rule hd_in_set) simp
  moreover have "CHR ''|'' \<notin> set (to_string y)"
    by (rule not_in_to_string) simp
  ultimately show False by simp
qed

lemma to_string_no_comma: "CHR '','' \<notin> set (to_string x)"
  by (rule not_in_to_string) simp

lemma key_body_inj:
  "foldr (\<lambda>v r. to_string v @ CHR '','' # r) xs (CHR ''|'' # a) =
   foldr (\<lambda>v r. to_string v @ CHR '','' # r) ys (CHR ''|'' # b) \<Longrightarrow> xs = ys \<and> a = b"
proof (induction xs arbitrary: ys)
  case Nil
  note prems = Nil.prems
  show ?case
  proof (cases ys)
    case Nil
    with prems show ?thesis by simp
  next
    case (Cons y ys')
    with prems have
      "to_string y @ (CHR '','' # foldr (\<lambda>v r. to_string v @ CHR '','' # r) ys' (CHR ''|'' # b))
        = CHR ''|'' # a"
      by simp
    then show ?thesis by (simp add: to_string_no_bar)
  qed
next
  case (Cons x xs)
  note prems = Cons.prems and IH = Cons.IH
  show ?case
  proof (cases ys)
    case Nil
    with prems have
      "to_string x @ (CHR '','' # foldr (\<lambda>v r. to_string v @ CHR '','' # r) xs (CHR ''|'' # a))
        = CHR ''|'' # b"
      by simp
    then show ?thesis by (simp add: to_string_no_bar)
  next
    case ys: (Cons y ys')
    from prems have
      "to_string x @ CHR '','' # foldr (\<lambda>v r. to_string v @ CHR '','' # r) xs (CHR ''|'' # a) =
       to_string y @ CHR '','' # foldr (\<lambda>v r. to_string v @ CHR '','' # r) ys' (CHR ''|'' # b)"
      unfolding ys by simp
    from sep_unique [OF this to_string_no_comma to_string_no_comma]
    have xy: "to_string x = to_string y"
      and rest: "foldr (\<lambda>v r. to_string v @ CHR '','' # r) xs (CHR ''|'' # a) =
                 foldr (\<lambda>v r. to_string v @ CHR '','' # r) ys' (CHR ''|'' # b)"
      by simp_all
    from xy have "x = y" by (rule to_string_inj)
    moreover from IH [OF rest] have "xs = ys'" "a = b" by simp_all
    ultimately show ?thesis using ys by simp
  qed
qed

lemma key_of_inj:
  assumes "key_of p pl = key_of q pl'"
  shows "mset p = mset q \<and> pl = pl'"
proof -
  have "key_of p pl = foldr (\<lambda>v r. to_string v @ CHR '','' # r) (sort p) (CHR ''|'' # CHR ''P'' # to_string pl)" for p pl
    using key_loop_eq [of "sort p" "[]" "''|P'' @ to_string pl"] by (simp add: key_of_def)
  with assms have "sort p = sort q \<and> CHR ''P'' # to_string pl = CHR ''P'' # to_string pl'"
    by (intro key_body_inj) simp
  then have "sort p = sort q" "to_string pl = to_string pl'" by simp_all
  then have "mset (sort p) = mset (sort q)" "pl = pl'"
    using to_string_inj [of pl pl'] by simp_all
  then show ?thesis by simp
qed

section \<open>The plain evaluator\<close>

lemma foldl_max: "foldl max a xs = Max (insert a (set xs))" for a :: int
proof (induction xs arbitrary: a)
  case Nil
  then show ?case by simp
next
  case (Cons x xs)
  have "Max (insert (max a x) (set xs)) = Max (insert a (insert x (set xs)))"
    by (cases "set xs = {}") (simp_all add: max.assoc)
  with Cons show ?case by simp
qed

lemma foldl_min: "foldl min a xs = Min (insert a (set xs))" for a :: int
proof (induction xs arbitrary: a)
  case Nil
  then show ?case by simp
next
  case (Cons x xs)
  have "Min (insert (min a x) (set xs)) = Min (insert a (insert x (set xs)))"
    by (cases "set xs = {}") (simp_all add: min.assoc)
  with Cons show ?case by simp
qed

lemma foldl_max_map:
  "foldl (\<lambda>best c. max best (g c)) a cs = Max (insert a (g ` set cs))" for a :: int
  using foldl_max [of a "map g cs"] by (simp add: foldl_map)

lemma foldl_min_map:
  "foldl (\<lambda>best c. min best (g c)) a cs = Min (insert a (g ` set cs))" for a :: int
  using foldl_min [of a "map g cs"] by (simp add: foldl_map)

lemma plain_minimax_eq:
  "plain_minimax p pl =
     (if is_terminal p then terminal_score pl
      else if pl = 2 then Max (insert INT_MIN (child_values p pl))
      else Min (insert INT_MAX (child_values p pl)))"
  by (subst plain_minimax.simps)
     (simp add: children_generate_children new_Node_def child_values_def foldl_max_map
        foldl_min_map)

lemma plain_minimax_step:
  "\<not> is_terminal p \<Longrightarrow>
   plain_minimax p pl =
     (if pl = 2
      then foldl (\<lambda>best c. max best (plain_minimax (piles c) (player c))) INT_MIN (moves_of p pl 0)
      else foldl (\<lambda>best c. min best (plain_minimax (piles c) (player c))) INT_MAX (moves_of p pl 0))"
  by (subst plain_minimax.simps) (simp add: children_generate_children new_Node_def)

lemma moves_of_mset:
  assumes "mset p = mset q" "c \<in> set (moves_of p pl 0)"
  shows "\<exists>c' \<in> set (moves_of q pl 0). mset (piles c') = mset (piles c) \<and> player c' = player c"
proof -
  from assms(2) obtain i tk where c: "c = child_of p pl i tk" and i: "i < length p"
    and tk: "1 \<le> tk" "tk \<le> p ! i"
    by (auto simp: in_moves_of)
  from i have "p ! i \<in> set q"
    using assms(1) by (metis nth_mem set_mset_mset)
  then obtain j where j: "j < length q" "q ! j = p ! i"
    by (auto simp: in_set_conv_nth)
  let ?c' = "child_of q pl j tk"
  have "?c' \<in> set (moves_of q pl 0)"
    using j tk unfolding in_moves_of by (intro exI [of _ j] exI [of _ tk]) simp
  moreover have "mset (piles ?c') = mset (piles c)"
    using i j assms(1) by (simp add: c mset_update)
  moreover have "player ?c' = player c"
    by (simp add: c)
  ultimately show ?thesis by blast
qed

lemma plain_minimax_mset: "mset p = mset q \<Longrightarrow> plain_minimax p pl = plain_minimax q pl"
proof (induction "total_objects p" arbitrary: p q pl rule: less_induct)
  case less
  have sub: "child_values p' pl \<subseteq> child_values q' pl"
    if pq: "mset p' = mset q'" and tot: "total_objects p' = total_objects p" for p' q'
  proof
    fix v assume "v \<in> child_values p' pl"
    then obtain c where c: "c \<in> set (moves_of p' pl 0)" and v: "v = plain_minimax (piles c) (player c)"
      by (auto simp: child_values_def)
    from moves_of_mset [OF pq c] obtain c' where c': "c' \<in> set (moves_of q' pl 0)"
      and eq: "mset (piles c') = mset (piles c)" "player c' = player c"
      by blast
    have "total_objects (piles c) < total_objects p"
      using total_objects_moves_of [OF c] tot by simp
    from less.hyps [OF this eq(1) [symmetric]]
    have "plain_minimax (piles c) (player c) = plain_minimax (piles c') (player c')"
      by (simp add: eq(2))
    with c' v show "v \<in> child_values q' pl"
      by (auto simp: child_values_def)
  qed
  have "child_values p pl \<subseteq> child_values q pl"
    using sub [OF less.prems] by simp
  moreover have "child_values q pl \<subseteq> child_values p pl"
    using sub [of q p] less.prems total_objects_mset [OF less.prems] by simp
  ultimately have "child_values p pl = child_values q pl" by (rule subset_antisym)
  then show ?case
    unfolding plain_minimax_eq [of p] plain_minimax_eq [of q] is_terminal_mset [OF less.prems]
    by (rule arg_cong)
qed

section \<open>The memoised evaluator computes the plain value\<close>

lemma memo_sound_empty [simp]: "memo_sound Map.empty"
  by (simp add: memo_sound_def)

lemma memo_sound_lookup: "memo_sound memo \<Longrightarrow> memo (key_of p pl) = Some v \<Longrightarrow> v = plain_minimax p pl"
  by (simp add: memo_sound_def)

lemma memo_sound_update:
  assumes "memo_sound memo"
  shows "memo_sound (memo(key_of p pl \<mapsto> plain_minimax p pl))"
  unfolding memo_sound_def
proof (intro allI impI)
  fix q pl' v
  assume v: "(memo(key_of p pl \<mapsto> plain_minimax p pl)) (key_of q pl') = Some v"
  show "v = plain_minimax q pl'"
  proof (cases "key_of q pl' = key_of p pl")
    case True
    then have "mset q = mset p" "pl' = pl"
      using key_of_inj [of q pl' p pl] by simp_all
    then have "plain_minimax q pl' = plain_minimax p pl"
      using plain_minimax_mset [of q p pl] by simp
    with v True show ?thesis by simp
  next
    case False
    with v have "memo (key_of q pl') = Some v" by simp
    with assms show ?thesis by (rule memo_sound_lookup)
  qed
qed

lemma minimax_refines:
  "children node = [] \<Longrightarrow> memo_sound memo \<Longrightarrow>
     fst (minimax node memo) = plain_minimax (piles node) (player node)
     \<and> memo_sound (snd (snd (minimax node memo)))
     \<and> piles (fst (snd (minimax node memo))) = piles node"
  and
  "\<forall>c\<in>set cs. children c = [] \<Longrightarrow> memo_sound memo \<Longrightarrow>
     fst (minimax_loop f cs best memo) =
       foldl (\<lambda>b c. f b (plain_minimax (piles c) (player c))) best cs
     \<and> memo_sound (snd (snd (minimax_loop f cs best memo)))
     \<and> map piles (fst (snd (minimax_loop f cs best memo))) = map piles cs"
proof (induction node memo and f cs best memo rule: minimax_minimax_loop.induct)
  case (1 node memo)
  let ?K = "key_of (piles node) (player node)"
  let ?cs = "moves_of (piles node) (player node) 0"
  have kids: "children (generate_children node) = ?cs"
    using 1(3) by (simp add: children_generate_children)
  have fresh: "\<forall>c\<in>set ?cs. children c = []"
    by (simp add: moves_of_fresh)
  show ?case
  proof (cases "is_terminal (piles node)")
    case True
    then show ?thesis
      using 1(4) by (simp add: minimax.simps plain_minimax.simps)
  next
    case nt: False
    show ?thesis
    proof (cases "memo ?K")
      case (Some v)
      with nt 1(4) memo_sound_lookup [OF 1(4) Some] show ?thesis
        by (simp add: minimax.simps)
    next
      case None
      show ?thesis
      proof (cases "player node = 2")
        case True
        from 1(1) [OF nt refl None refl] True kids fresh 1(4)
        have IH: "fst (minimax_loop max ?cs INT_MIN memo) = plain_minimax (piles node) (player node)"
          "memo_sound (snd (snd (minimax_loop max ?cs INT_MIN memo)))"
          by (simp_all add: plain_minimax_step [OF nt])
        obtain b cs' memo' where r: "minimax_loop max ?cs INT_MIN memo = (b, cs', memo')"
          by (cases "minimax_loop max ?cs INT_MIN memo") auto
        with IH have b: "b = plain_minimax (piles node) (player node)" and s: "memo_sound memo'"
          by simp_all
        from nt None True kids r have res:
          "minimax node memo = (b, set_score (set_children (generate_children node) cs') b, memo'(?K \<mapsto> b))"
          by (simp add: minimax.simps)
        have ms: "memo_sound (memo'(?K \<mapsto> b))"
          unfolding b using s by (rule memo_sound_update)
        show ?thesis
          unfolding res fst_conv snd_conv by (intro conjI) (fact b, fact ms, simp)
      next
        case False
        from 1(2) [OF nt refl None refl] False kids fresh 1(4)
        have IH: "fst (minimax_loop min ?cs INT_MAX memo) = plain_minimax (piles node) (player node)"
          "memo_sound (snd (snd (minimax_loop min ?cs INT_MAX memo)))"
          by (simp_all add: plain_minimax_step [OF nt])
        obtain b cs' memo' where r: "minimax_loop min ?cs INT_MAX memo = (b, cs', memo')"
          by (cases "minimax_loop min ?cs INT_MAX memo") auto
        with IH have b: "b = plain_minimax (piles node) (player node)" and s: "memo_sound memo'"
          by simp_all
        from nt None False kids r have res:
          "minimax node memo = (b, set_score (set_children (generate_children node) cs') b, memo'(?K \<mapsto> b))"
          by (simp add: minimax.simps)
        have ms: "memo_sound (memo'(?K \<mapsto> b))"
          unfolding b using s by (rule memo_sound_update)
        show ?thesis
          unfolding res fst_conv snd_conv by (intro conjI) (fact b, fact ms, simp)
      qed
    qed
  qed
next
  case (2 f best memo)
  then show ?case by (simp add: minimax.simps)
next
  case (3 f c cs best memo)
  obtain v c' memo' where r: "minimax c memo = (v, c', memo')"
    by (cases "minimax c memo") auto
  from 3(1) 3(3) 3(4) r have c: "v = plain_minimax (piles c) (player c)" "memo_sound memo'"
    "piles c' = piles c"
    by simp_all
  obtain b cs' memo'' where r': "minimax_loop f cs (f best v) memo' = (b, cs', memo'')"
    by (cases "minimax_loop f cs (f best v) memo'") auto
  from 3(2) [OF r [symmetric] refl _ c(2)] 3(3) r'
  have "b = foldl (\<lambda>b c. f b (plain_minimax (piles c) (player c))) (f best v) cs"
    "memo_sound memo''" "map piles cs' = map piles cs"
    by simp_all
  with c r r' show ?case
    by (simp add: minimax.simps)
qed

lemma populated_sound: "populated memo \<Longrightarrow> memo_sound memo"
proof (induction rule: populated.induct)
  case populated_empty
  then show ?case by simp
next
  case (populated_minimax memo p pl s)
  then show ?case
    using minimax_refines(1) [of "Node p pl s []" memo] by simp
qed

lemma minimax_plain:
  "populated memo \<Longrightarrow> fst (minimax (Node p pl s []) memo) = plain_minimax p pl"
  using minimax_refines(1) [of "Node p pl s []" memo] populated_sound [of memo] by simp

section \<open>Nim-sums\<close>

lemma nim_sum_update:
  "i < length p \<Longrightarrow> nim_sum (p[i := v]) = nim_sum p XOR p ! i XOR v"
proof (induction p arbitrary: i)
  case Nil
  then show ?case by simp
next
  case (Cons a p)
  show ?case
  proof (cases i)
    case 0
    then show ?thesis by (simp add: ac_simps)
  next
    case (Suc j)
    with Cons show ?thesis by (simp add: ac_simps)
  qed
qed

lemma nim_sum_nonneg: "\<forall>v\<in>set p. 0 \<le> v \<Longrightarrow> 0 \<le> nim_sum p"
  by (induction p) simp_all

lemma nim_sum_half: "nim_sum (map (\<lambda>v. v div 2) p) = nim_sum p div 2"
proof (induction p)
  case Nil
  then show ?case by simp
next
  case (Cons a p)
  have "(a XOR nim_sum p) div 2 = (a div 2) XOR (nim_sum p div 2)"
    by (subst xor_rec [of a "nim_sum p"]) simp
  with Cons show ?case by simp
qed

lemma nim_sum_odd: "odd (nim_sum p) \<Longrightarrow> \<exists>i<length p. odd (p ! i)"
proof (induction p)
  case Nil
  then show ?case by simp
next
  case (Cons a p)
  show ?case
  proof (cases "odd a")
    case True
    then have "0 < length (a # p) \<and> odd ((a # p) ! 0)" by simp
    then show ?thesis by blast
  next
    case False
    with Cons.prems have "odd (nim_sum p)" by (simp add: even_xor_iff)
    from Cons.IH [OF this] obtain i where "i < length p" "odd (p ! i)" by blast
    then have "Suc i < length (a # p) \<and> odd ((a # p) ! Suc i)" by simp
    then show ?thesis by blast
  qed
qed

lemma xor_less_half:
  fixes a s :: int
  assumes "(a div 2) XOR (s div 2) < a div 2"
  shows "a XOR s < a"
proof -
  have "a XOR s = of_bool (odd a \<noteq> odd s) + 2 * ((a div 2) XOR (s div 2))"
    by (rule xor_rec)
  also have "\<dots> \<le> 1 + 2 * ((a div 2) XOR (s div 2))"
    by simp
  also have "\<dots> < 2 * (a div 2)"
    using assms by simp
  also have "\<dots> \<le> a"
    by simp
  finally show ?thesis .
qed

lemma nim_sum_reducible:
  "\<forall>v\<in>set p. 0 \<le> v \<Longrightarrow> nim_sum p \<noteq> 0 \<Longrightarrow> \<exists>i<length p. p ! i XOR nim_sum p < p ! i"
proof (induction "nat (nim_sum p)" arbitrary: p rule: less_induct)
  case less
  let ?s = "nim_sum p"
  let ?h = "map (\<lambda>v. v div 2) p"
  have pos: "0 < ?s"
    using nim_sum_nonneg [OF less.prems(1)] less.prems(2) by simp
  show ?case
  proof (cases "?s div 2 = 0")
    case True
    with pos have one: "?s = 1" by presburger
    then have "odd ?s" by simp
    from nim_sum_odd [OF this] obtain i where i: "i < length p" "odd (p ! i)" by blast
    have "p ! i XOR 1 = of_bool (odd (p ! i) \<noteq> odd (1::int)) + 2 * ((p ! i div 2) XOR (1 div 2))"
      by (rule xor_rec)
    with i(2) have "p ! i XOR 1 = 2 * (p ! i div 2)" by simp
    also have "\<dots> < p ! i" using i(2) by presburger
    finally have "p ! i XOR ?s < p ! i" by (simp add: one)
    with i(1) show ?thesis by blast
  next
    case False
    have half: "nim_sum ?h = ?s div 2" by (rule nim_sum_half)
    have "nat (nim_sum ?h) < nat ?s"
      using pos by (simp add: half)
    moreover have "\<forall>v\<in>set ?h. 0 \<le> v"
      using less.prems(1) by simp
    moreover have "nim_sum ?h \<noteq> 0"
      using False by (simp add: half)
    ultimately obtain i where i: "i < length ?h" "?h ! i XOR nim_sum ?h < ?h ! i"
      using less.hyps [of ?h] by blast
    then have "i < length p" "(p ! i div 2) XOR (?s div 2) < p ! i div 2"
      by (simp_all add: half)
    with xor_less_half [of "p ! i" ?s] show ?thesis by blast
  qed
qed

lemma nim_sum_terminal: "is_terminal p \<Longrightarrow> nim_sum p = 0"
  by (induction p) (simp_all split: if_splits)

lemma xor_eq_0D: "a XOR b = 0 \<Longrightarrow> a = b" for a b :: int
proof -
  assume "a XOR b = 0"
  moreover have "a = (a XOR b) XOR b" by (simp add: xor.assoc)
  ultimately show ?thesis by simp
qed

lemma nim_zero_moves:
  assumes "nim_sum p = 0" "c \<in> set (moves_of p pl 0)"
  shows "nim_sum (piles c) \<noteq> 0"
proof -
  from assms(2) obtain i tk where c: "c = child_of p pl i tk" and i: "i < length p"
    and tk: "1 \<le> tk" "tk \<le> p ! i"
    unfolding in_moves_of by blast
  have "nim_sum (piles c) = p ! i XOR (p ! i - tk)"
    using assms(1) i by (simp add: c nim_sum_update)
  moreover have "p ! i \<noteq> p ! i - tk" using tk by simp
  ultimately show ?thesis using xor_eq_0D [of "p ! i" "p ! i - tk"] by auto
qed

lemma nim_nonzero_move:
  assumes "\<forall>v\<in>set p. 0 \<le> v" "nim_sum p \<noteq> 0"
  shows "\<exists>c\<in>set (moves_of p pl 0). nim_sum (piles c) = 0"
proof -
  from nim_sum_reducible [OF assms] obtain i where i: "i < length p"
    and less: "p ! i XOR nim_sum p < p ! i"
    by blast
  let ?tk = "p ! i - (p ! i XOR nim_sum p)"
  have "0 \<le> p ! i XOR nim_sum p"
    using assms(1) i nim_sum_nonneg [OF assms(1)] by simp
  with less have tk: "1 \<le> ?tk" "?tk \<le> p ! i" by simp_all
  with i have "child_of p pl i ?tk \<in> set (moves_of p pl 0)"
    unfolding in_moves_of by (intro exI [of _ i] exI [of _ ?tk]) simp
  moreover have "nim_sum (piles (child_of p pl i ?tk)) = 0"
    using i by (simp add: nim_sum_update ac_simps)
  ultimately show ?thesis by blast
qed

lemma Max_sentinel:
  assumes "finite S" "S \<noteq> {}" "\<forall>v\<in>S. v = - 1 \<or> v = 1"
  shows "Max (insert INT_MIN S) = (if 1 \<in> S then 1 else - 1)"
proof -
  have "Max (insert INT_MIN S) = max INT_MIN (Max S)"
    using assms(1,2) by simp
  moreover have "Max S = (if 1 \<in> S then 1 else - 1)"
  proof (cases "1 \<in> S")
    case True
    with assms show ?thesis by (intro Max_eqI) auto
  next
    case False
    with assms have "S = {- 1}" by auto
    with False show ?thesis by simp
  qed
  ultimately show ?thesis by (simp add: INT_MIN_def)
qed

lemma Min_sentinel:
  assumes "finite S" "S \<noteq> {}" "\<forall>v\<in>S. v = - 1 \<or> v = 1"
  shows "Min (insert INT_MAX S) = (if - 1 \<in> S then - 1 else 1)"
proof -
  have "Min (insert INT_MAX S) = min INT_MAX (Min S)"
    using assms(1,2) by simp
  moreover have "Min S = (if - 1 \<in> S then - 1 else 1)"
  proof (cases "- 1 \<in> S")
    case True
    with assms show ?thesis by (intro Min_eqI) auto
  next
    case False
    with assms have "S = {1}" by auto
    with False show ?thesis by simp
  qed
  ultimately show ?thesis by (simp add: INT_MAX_def)
qed

lemma plain_minimax_nim:
  "\<forall>v\<in>set p. 0 \<le> v \<Longrightarrow> pl = 1 \<or> pl = 2 \<Longrightarrow> plain_minimax p pl = nim_value p pl"
proof (induction "total_objects p" arbitrary: p pl rule: less_induct)
  case less
  show ?case
  proof (cases "is_terminal p")
    case True
    then show ?thesis
      by (simp add: plain_minimax_eq nim_value_def nim_sum_terminal)
  next
    case nt: False
    let ?S = "child_values p pl"
    have val: "plain_minimax (piles c) (player c) = nim_value (piles c) (opponent pl)"
      if "c \<in> set (moves_of p pl 0)" for c
    proof -
      have "plain_minimax (piles c) (player c) = nim_value (piles c) (player c)"
        using less.prems(2) moves_of_player [OF that]
        by (intro less.hyps total_objects_moves_of [OF that] moves_of_nonneg [OF less.prems(1) that])
           (auto simp: opponent_def)
      then show ?thesis by (simp add: moves_of_player [OF that])
    qed
    have fin: "finite ?S" by (simp add: child_values_def)
    have ne: "?S \<noteq> {}"
      using not_terminal_move [OF less.prems(1) nt, of pl] by (simp add: child_values_def)
    have range: "\<forall>v\<in>?S. v = - 1 \<or> v = 1"
      by (auto simp: child_values_def val nim_value_def terminal_score_def)
    have mem: "v \<in> ?S \<longleftrightarrow> (\<exists>c\<in>set (moves_of p pl 0). v = nim_value (piles c) (opponent pl))" for v
      by (auto simp: child_values_def val)
    have mx: "Max (insert INT_MIN ?S) = (if 1 \<in> ?S then 1 else - 1)"
      by (rule Max_sentinel [OF fin ne range])
    have mn: "Min (insert INT_MAX ?S) = (if - 1 \<in> ?S then - 1 else 1)"
      by (rule Min_sentinel [OF fin ne range])
    have pm: "plain_minimax p pl =
        (if pl = 2 then Max (insert INT_MIN ?S) else Min (insert INT_MAX ?S))"
      using nt by (simp add: plain_minimax_eq)
    show ?thesis
    proof (cases "nim_sum p = 0")
      case True
      have all: "nim_value (piles c) (opponent pl) = - terminal_score (opponent pl)"
        if "c \<in> set (moves_of p pl 0)" for c
        using nim_zero_moves [OF True that] by (simp add: nim_value_def)
      have "v \<in> ?S \<Longrightarrow> v = - terminal_score (opponent pl)" for v
        unfolding mem using all by auto
      from this [of 1] this [of "- 1"]
      have "pl = 2 \<longrightarrow> 1 \<notin> ?S" "pl \<noteq> 2 \<longrightarrow> - 1 \<notin> ?S"
        using less.prems(2) by (auto simp: opponent_def terminal_score_def)
      then show ?thesis
        unfolding pm mx mn nim_value_def using True less.prems(2)
        by (auto simp: terminal_score_def)
    next
      case False
      from nim_nonzero_move [OF less.prems(1) False, of pl]
      obtain c where c: "c \<in> set (moves_of p pl 0)" "nim_sum (piles c) = 0" by blast
      then have "terminal_score (opponent pl) \<in> ?S"
        unfolding mem by (intro bexI [of _ c]) (simp_all add: nim_value_def)
      then have "pl = 2 \<longrightarrow> 1 \<in> ?S" "pl \<noteq> 2 \<longrightarrow> - 1 \<in> ?S"
        using less.prems(2) by (auto simp: opponent_def terminal_score_def)
      then show ?thesis
        unfolding pm mx mn nim_value_def using False less.prems(2)
        by (auto simp: terminal_score_def)
    qed
  qed
qed

lemma plain_minimax_range:
  assumes "\<forall>v\<in>set p. 0 \<le> v"
  shows "plain_minimax p pl = - 1 \<or> plain_minimax p pl = 1"
proof (cases "is_terminal p")
  case True
  then show ?thesis by (simp add: plain_minimax_eq terminal_score_def)
next
  case nt: False
  let ?S = "child_values p pl"
  have fin: "finite ?S" by (simp add: child_values_def)
  have ne: "?S \<noteq> {}"
    using not_terminal_move [OF assms nt, of pl] by (simp add: child_values_def)
  have range: "\<forall>v\<in>?S. v = - 1 \<or> v = 1"
  proof
    fix v assume "v \<in> ?S"
    then obtain c where c: "c \<in> set (moves_of p pl 0)" and v: "v = plain_minimax (piles c) (player c)"
      by (auto simp: child_values_def)
    have "player c = 1 \<or> player c = 2"
      using moves_of_player [OF c] by (simp add: opponent_def)
    from plain_minimax_nim [OF moves_of_nonneg [OF assms c] this]
    show "v = - 1 \<or> v = 1"
      by (simp add: v nim_value_def terminal_score_def)
  qed
  have "plain_minimax p pl =
      (if pl = 2 then Max (insert INT_MIN ?S) else Min (insert INT_MAX ?S))"
    using nt by (simp add: plain_minimax_eq)
  then show ?thesis
    unfolding Max_sentinel [OF fin ne range] Min_sentinel [OF fin ne range] by simp
qed

lemma child_values_range:
  assumes "\<forall>v\<in>set p. 0 \<le> v"
  shows "\<forall>v\<in>child_values p pl. v = - 1 \<or> v = 1"
proof
  fix v assume "v \<in> child_values p pl"
  then obtain c where c: "c \<in> set (moves_of p pl 0)" and v: "v = plain_minimax (piles c) (player c)"
    by (auto simp: child_values_def)
  from plain_minimax_range [OF moves_of_nonneg [OF assms c]]
  show "v = - 1 \<or> v = 1" by (simp add: v)
qed

lemma plain_minimax_children:
  assumes "\<forall>v\<in>set p. 0 \<le> v" "\<not> is_terminal p"
  shows "plain_minimax p pl = (if pl = 2 then Max (child_values p pl) else Min (child_values p pl))"
proof -
  let ?S = "child_values p pl"
  have fin: "finite ?S" by (simp add: child_values_def)
  have ne: "?S \<noteq> {}"
    using not_terminal_move [OF assms, of pl] by (simp add: child_values_def)
  have "INT_MIN \<le> v \<and> v \<le> INT_MAX" if "v \<in> ?S" for v
    using child_values_range [OF assms(1), of pl] that by (auto simp: INT_MIN_def INT_MAX_def)
  then have "INT_MIN \<le> Max ?S" "Min ?S \<le> INT_MAX"
    using fin ne by (meson Max_in Min_in)+
  moreover have "Max (insert INT_MIN ?S) = max INT_MIN (Max ?S)"
    "Min (insert INT_MAX ?S) = min INT_MAX (Min ?S)"
    using fin ne by simp_all
  ultimately have mm: "Max (insert INT_MIN ?S) = Max ?S" "Min (insert INT_MAX ?S) = Min ?S"
    by simp_all
  have "plain_minimax p pl =
      (if pl = 2 then Max (insert INT_MIN ?S) else Min (insert INT_MAX ?S))"
    using assms(2) by (simp add: plain_minimax_eq)
  then show ?thesis unfolding mm .
qed

section \<open>Move selection and recursion depth\<close>

lemma find_changed_child:
  assumes "i < length ps" "tk \<noteq> 0" "j \<le> i"
  shows "find_changed (ps[i := ps ! i - tk]) ps j bm = (int i, tk)"
  using assms
proof (induction "i - j" arbitrary: j)
  case 0
  then show ?case by (subst find_changed.simps) simp
next
  case (Suc n)
  then have "find_changed (ps[i := ps ! i - tk]) ps (j + 1) bm = (int i, tk)"
    by (intro Suc.hyps) simp_all
  with Suc.prems Suc.hyps(2) show ?case
    by (subst find_changed.simps) simp
qed

lemma select_loop_legal:
  assumes "\<forall>v\<in>set ps. 0 \<le> v" "memo_sound memo" "set cs \<subseteq> set (moves_of ps 2 0)"
    and "legal_move ps bm \<or> (bestScore < - 1 \<and> cs \<noteq> [])"
  shows "legal_move ps (select_loop ps cs bestScore bm memo)"
  using assms(2-)
proof (induction cs arbitrary: bestScore bm memo)
  case Nil
  then show ?case by simp
next
  case (Cons c cs)
  from Cons.prems(2) have c: "c \<in> set (moves_of ps 2 0)" and cs: "set cs \<subseteq> set (moves_of ps 2 0)"
    by simp_all
  from c obtain i tk where ch: "c = child_of ps 2 i tk" and i: "i < length ps"
    and tk: "1 \<le> tk" "tk \<le> ps ! i"
    unfolding in_moves_of by blast
  obtain v c' memo' where r: "minimax c memo = (v, c', memo')"
    by (cases "minimax c memo") auto
  have fresh: "children c = []" by (simp add: ch)
  from minimax_refines(1) [OF fresh Cons.prems(1)] r
  have v: "v = plain_minimax (piles c) (player c)" and s: "memo_sound memo'"
    by simp_all
  have "piles c' = piles c"
    using minimax_frame(1) [of c memo] r by simp
  then have pc: "piles c' = ps[i := ps ! i - tk]" by (simp add: ch)
  have range: "v = - 1 \<or> v = 1"
    unfolding v by (rule plain_minimax_range [OF moves_of_nonneg [OF assms(1) c]])
  have new: "legal_move ps (find_changed (piles c') ps 0 bm)"
    using i tk by (simp add: pc find_changed_child legal_move_def)
  show ?case
  proof (cases "v > bestScore")
    case True
    have "legal_move ps (select_loop ps cs v (find_changed (piles c') ps 0 bm) memo')"
      using new by (intro Cons.IH s cs) simp
    with True r show ?thesis by simp
  next
    case False
    with range Cons.prems(3) have "legal_move ps bm" by auto
    then have "legal_move ps (select_loop ps cs bestScore bm memo')"
      by (intro Cons.IH s cs) simp
    with False r show ?thesis by simp
  qed
qed

lemma moves_of_first:
  assumes "i \<le> j" "j < length p" "1 \<le> p ! j"
  shows "\<exists>k cs. moves_of p pl i = child_of p pl k 1 # cs \<and> k < length p \<and> 1 \<le> p ! k"
  using assms
proof (induction "j - i" arbitrary: i)
  case 0
  then have "[1..p ! j] = 1 # [2..p ! j]" by (simp add: upto_rec1)
  with 0 show ?case
    using moves_of_unfold [of j p pl] by auto
next
  case (Suc n)
  then have i: "i < length p" by simp
  show ?case
  proof (cases "1 \<le> p ! i")
    case True
    then have "[1..p ! i] = 1 # [2..p ! i]" by (simp add: upto_rec1)
    with True i show ?thesis
      using moves_of_unfold [of i p pl] by auto
  next
    case False
    then have "[1..p ! i] = []" by simp
    with i have "moves_of p pl i = moves_of p pl (Suc i)"
      using moves_of_unfold [of i p pl] by simp
    moreover from Suc have "\<exists>k cs. moves_of p pl (Suc i) = child_of p pl k 1 # cs \<and> k < length p \<and> 1 \<le> p ! k"
      by (intro Suc.hyps) simp_all
    ultimately show ?thesis by simp
  qed
qed

lemma first_move:
  assumes "\<forall>v\<in>set p. 0 \<le> v" "\<not> is_terminal p"
  shows "\<exists>c cs. moves_of p pl 0 = c # cs \<and> children c = []
           \<and> (\<forall>v\<in>set (piles c). 0 \<le> v) \<and> Suc (total_objects (piles c)) = total_objects p"
proof -
  from assms(2) obtain v where "v \<in> set p" "v \<noteq> 0"
    by (auto simp: is_terminal_iff)
  then obtain j where j: "j < length p" "p ! j \<noteq> 0"
    by (auto simp: in_set_conv_nth)
  moreover from assms(1) j(1) have "0 \<le> p ! j" using nth_mem [of j p] by blast
  ultimately have "1 \<le> p ! j" by simp
  from moves_of_first [OF _ j(1) this, of 0 pl]
  obtain k cs where m: "moves_of p pl 0 = child_of p pl k 1 # cs" and k: "k < length p" "1 \<le> p ! k"
    by auto
  have "child_of p pl k 1 \<in> set (moves_of p pl 0)" by (simp add: m)
  from moves_of_nonneg [OF assms(1) this]
  have "\<forall>v\<in>set (piles (child_of p pl k 1)). 0 \<le> v" .
  with m k total_objects_take_one [OF k] show ?thesis
    by simp
qed

lemma forest_depth_simps [simp]:
  "forest_depth [] = 0" "forest_depth (c # cs) = max (Suc (tree_depth c)) (forest_depth cs)"
  by (simp_all add: forest_depth_def)

lemma tree_depth_eq: "tree_depth node = forest_depth (children node)"
  by (cases node) (simp add: forest_depth_def)

lemma forest_depth_le:
  "(\<And>c. c \<in> set cs \<Longrightarrow> tree_depth c < height c) \<Longrightarrow> forest_depth cs \<le> heights cs"
proof (induction cs)
  case Nil
  then show ?case by simp
next
  case (Cons a cs)
  from Cons.prems [of a] have "Suc (tree_depth a) \<le> height a" by simp
  moreover have "forest_depth cs \<le> heights cs"
    by (rule Cons.IH) (simp add: Cons.prems)
  ultimately show ?case
    unfolding forest_depth_simps heights_simps by (rule max.mono)
qed

lemma tree_depth_height: "tree_depth node < height node"
proof (induction node)
  case (Node p pl s cs)
  then have "forest_depth cs \<le> heights cs"
    by (intro forest_depth_le) simp
  then show ?case
    by (simp add: tree_depth_eq height_eq)
qed

lemma minimax_expand:
  assumes "\<not> is_terminal (piles node)" "memo (key_of (piles node) (player node)) = None"
  shows "children (fst (snd (minimax node memo))) =
     fst (snd (minimax_loop (if player node = 2 then max else min)
                (children (generate_children node))
                (if player node = 2 then INT_MIN else INT_MAX) memo))"
  using assms by (subst minimax.simps) (simp add: Let_def split: prod.split)

lemma minimax_loop_Cons:
  "fst (snd (minimax_loop f (c # cs) best memo)) =
     fst (snd (minimax c memo)) #
     fst (snd (minimax_loop f cs (f best (fst (minimax c memo))) (snd (snd (minimax c memo)))))"
  by (simp add: minimax.simps split: prod.split)

lemma minimax_tree_height:
  "tree_depth (fst (snd (minimax node memo))) < height node"
  "forest_depth (fst (snd (minimax_loop f cs best memo))) \<le> heights cs"
proof (induction node memo and f cs best memo rule: minimax_minimax_loop.induct)
  case (1 node memo)
  let ?K = "key_of (piles node) (player node)"
  show ?case
  proof (cases "\<not> is_terminal (piles node) \<and> memo ?K = None")
    case True
    then have nt: "\<not> is_terminal (piles node)" and miss: "memo ?K = None" by simp_all
    have "forest_depth (children (fst (snd (minimax node memo))))
        \<le> heights (children (generate_children node))"
    proof (cases "player node = 2")
      case True
      with 1(1) [OF nt refl miss refl] show ?thesis
        by (simp add: minimax_expand [of node memo, OF nt miss])
    next
      case False
      with 1(2) [OF nt refl miss refl] show ?thesis
        by (simp add: minimax_expand [of node memo, OF nt miss])
    qed
    with heights_generate_children [of node] show ?thesis
      by (simp add: tree_depth_eq)
  next
    case False
    then have "children (fst (snd (minimax node memo))) = children node"
      by (subst minimax.simps) (auto simp: Let_def split: option.split)
    with tree_depth_height [of node] show ?thesis
      by (simp add: tree_depth_eq)
  qed
next
  case (2 f best memo)
  then show ?case by (simp add: minimax.simps)
next
  case (3 f c cs best memo)
  obtain v c' memo' where r: "minimax c memo = (v, c', memo')"
    by (cases "minimax c memo") auto
  have eq: "fst (snd (minimax_loop f (c # cs) best memo)) =
      c' # fst (snd (minimax_loop f cs (f best v) memo'))"
    using minimax_loop_Cons [of f c cs best memo] by (simp add: r)
  from 3(1) r have "Suc (tree_depth c') \<le> height c" by simp
  moreover from 3(2) [OF r [symmetric] refl]
  have "forest_depth (fst (snd (minimax_loop f cs (f best v) memo'))) \<le> heights cs" .
  ultimately show ?case
    unfolding eq forest_depth_simps heights_simps by (rule max.mono)
qed

lemma minimax_tree_depth_le:
  "tree_depth (fst (snd (minimax (Node p pl s []) memo))) \<le> total_objects p"
  using minimax_tree_height(1) [of "Node p pl s []" memo] by simp

lemma minimax_tree_depth_empty:
  "\<forall>v\<in>set p. 0 \<le> v \<Longrightarrow>
   tree_depth (fst (snd (minimax (Node p pl s []) Map.empty))) = total_objects p"
proof (induction "total_objects p" arbitrary: p pl s rule: less_induct)
  case less
  let ?node = "Node p pl s []"
  show ?case
  proof (cases "is_terminal p")
    case True
    then show ?thesis
      by (simp add: minimax.simps total_objects_terminal set_score_def)
  next
    case False
    from first_move [OF less.prems False, of pl]
    obtain c cs where m: "moves_of p pl 0 = c # cs" and fresh: "children c = []"
      and nn: "\<forall>v\<in>set (piles c). 0 \<le> v" and tot: "Suc (total_objects (piles c)) = total_objects p"
      by blast
    have c: "c = Node (piles c) (player c) (score c) []"
      using fresh by (cases c) simp
    have "tree_depth (fst (snd (minimax (Node (piles c) (player c) (score c) []) Map.empty)))
        = total_objects (piles c)"
      using tot by (intro less.hyps nn) simp
    then have first: "tree_depth (fst (snd (minimax c Map.empty))) = total_objects (piles c)"
      using c by simp
    let ?f = "if pl = 2 then max else min" and ?b = "if pl = 2 then INT_MIN else INT_MAX"
    have kids: "children (generate_children ?node) = c # cs"
      by (simp add: children_generate_children m)
    have rest: "forest_depth (fst (snd (minimax_loop ?f cs (?f ?b (fst (minimax c Map.empty)))
          (snd (snd (minimax c Map.empty)))))) \<le> heights cs"
      by (rule minimax_tree_height(2))
    have "heights (c # cs) \<le> total_objects p"
      using heights_moves_of [of p pl 0] by (simp add: m)
    then have "heights cs \<le> total_objects p" by simp
    with rest first tot
    have "forest_depth (fst (snd (minimax_loop ?f (c # cs) ?b Map.empty))) = total_objects p"
      unfolding minimax_loop_Cons by simp
    moreover have "children (fst (snd (minimax ?node Map.empty))) =
        fst (snd (minimax_loop ?f (c # cs) ?b Map.empty))"
      using minimax_expand [of ?node Map.empty] False kids by simp
    ultimately show ?thesis
      by (simp add: tree_depth_eq)
  qed
qed

section \<open>The evaluator and the nim-sum\<close>

text \<open>
  C1. On a board of non-negative piles below \<^verbatim>\<open>INT_MAX\<close>, started from a memo table that prior
  evaluations left (the empty one included), \<open>minimax\<close> returns the score Nim theory
  predicts, read from the AI's side: with the AI (player 2) to move, +1 when the nim-sum
  of the piles is not 0 and -1 when it is 0; with the human (player 1) to move, +1 when
  the nim-sum is 0 and -1 when it is not. So the player to move gets the losing score
  exactly when the nim-sum is 0.
\<close>

theorem minimax_nim_sum:
  assumes "\<forall>v\<in>set p. 0 \<le> v \<and> v < INT_MAX" "populated memo"
  shows "fst (minimax (Node p 2 s []) memo) = (if nim_sum p = 0 then - 1 else 1)
       \<and> fst (minimax (Node p 1 s []) memo) = (if nim_sum p = 0 then 1 else - 1)"
proof -
  from assms(1) have nn: "\<forall>v\<in>set p. 0 \<le> v" by blast
  with assms(2) plain_minimax_nim [of p 1] plain_minimax_nim [of p 2] show ?thesis
    by (simp add: minimax_plain nim_value_def terminal_score_def)
qed

theorem minimax_nim_sum_witness:
  "fst (minimax (Node [3, 4, 5] 2 0 []) Map.empty) = 1
   \<and> fst (minimax (Node [3, 4, 5] 1 0 []) Map.empty) = - 1
   \<and> fst (minimax (Node [1, 2, 3] 2 0 []) Map.empty) = - 1
   \<and> fst (minimax (Node [1, 2, 3] 1 0 []) Map.empty) = 1"
  using minimax_nim_sum [where p = "[3, 4, 5]" and memo = Map.empty and s = 0]
    minimax_nim_sum [where p = "[1, 2, 3]" and memo = Map.empty and s = 0] populated_empty
  by (simp add: INT_MAX_def)

section \<open>Terminal states\<close>

text \<open>
  C2. On a state whose piles are all 0 (the empty sequence included) \<open>minimax\<close> returns
  -1 when the AI (player 2) is to move and +1 when the human (player 1) is to move. It
  does not recurse: the node keeps its children, only its score is set, and the memo
  table is returned as it was, whatever it holds.
\<close>

theorem minimax_terminal:
  assumes "\<forall>v\<in>set ps. v = 0"
  shows "fst (minimax (Node ps 2 s cs) memo) = - 1
       \<and> fst (minimax (Node ps 1 s cs) memo) = 1
       \<and> snd (minimax (Node ps pl s cs) memo) = (Node ps pl (terminal_score pl) cs, memo)"
  using assms by (simp add: minimax.simps is_terminal_iff set_score_def terminal_score_def)

theorem minimax_terminal_witness:
  "fst (minimax (Node [0, 0, 0] 2 0 []) Map.empty) = - 1
   \<and> fst (minimax (Node [] 1 0 []) Map.empty) = 1
   \<and> snd (minimax (Node [] 1 0 []) Map.empty) = (Node [] 1 1 [], Map.empty)"
  using minimax_terminal [of "[0, 0, 0]" 0 "[]" Map.empty 2]
    minimax_terminal [of "[]" 0 "[]" Map.empty 1]
  by (simp add: terminal_score_def)

section \<open>The move chosen for the AI\<close>

text \<open>
  C3. On a board of non-negative piles below \<^verbatim>\<open>INT_MAX\<close> with at least one pile that
  is not 0,
  \<open>best_ai_move\<close> returns a pair (pile index, amount removed) whose index is an index
  of the board and whose amount is at least 1 and at most the pile at that index.
\<close>

theorem best_ai_move_legal:
  assumes "\<forall>v\<in>set ps. 0 \<le> v \<and> v < INT_MAX" "\<exists>v\<in>set ps. v \<noteq> 0"
  shows "0 \<le> fst (best_ai_move ps) \<and> fst (best_ai_move ps) < int (length ps)
       \<and> 1 \<le> snd (best_ai_move ps) \<and> snd (best_ai_move ps) \<le> ps ! nat (fst (best_ai_move ps))"
proof -
  from assms(1) have nn: "\<forall>v\<in>set ps. 0 \<le> v" by blast
  obtain v root memo where r: "minimax (new_Node ps 2) Map.empty = (v, root, memo)"
    by (cases "minimax (new_Node ps 2) Map.empty") auto
  have "memo_sound memo"
    using minimax_refines(1) [of "new_Node ps 2" Map.empty] r by (simp add: new_Node_def)
  moreover have root: "piles root = ps" "player root = 2"
    using minimax_frame [of "new_Node ps 2" Map.empty] r by (simp_all add: new_Node_def)
  then have kids: "children (generate_children (set_children root [])) = moves_of ps 2 0"
    by (simp add: children_generate_children)
  moreover have "moves_of ps 2 0 \<noteq> []"
    using nn assms(2) by (intro not_terminal_move) (simp_all add: is_terminal_iff)
  ultimately have "legal_move ps (select_loop ps (moves_of ps 2 0) INT_MIN (- 1, - 1) memo)"
    using nn by (intro select_loop_legal) (simp_all add: INT_MIN_def)
  then have "legal_move ps (best_ai_move ps)"
    by (simp add: best_ai_move_def r kids)
  then show ?thesis by (simp add: legal_move_def)
qed

theorem best_ai_move_legal_witness:
  "0 \<le> fst (best_ai_move [1, 2]) \<and> fst (best_ai_move [1, 2]) < 2
   \<and> 1 \<le> snd (best_ai_move [1, 2])
   \<and> snd (best_ai_move [1, 2]) \<le> [1, 2] ! nat (fst (best_ai_move [1, 2]))
   \<and> best_ai_move [1, 2] = (1, 1)"
proof -
  have "best_ai_move [1, 2] = (1, 1)"
    by code_simp
  with best_ai_move_legal [of "[1, 2]"] show ?thesis
    by (simp add: INT_MAX_def)
qed

text \<open>
  C10. On a board whose piles are all 0, \<open>best_ai_move\<close> returns the pair (-1, -1) it
  starts from: the root is terminal, no child is generated and the selection loop does
  not run.
\<close>

theorem best_ai_move_terminal:
  assumes "\<forall>v\<in>set ps. v = 0"
  shows "best_ai_move ps = (- 1, - 1)"
  using assms moves_of_terminal [of ps 2 0]
  by (simp add: best_ai_move_def minimax.simps is_terminal_iff new_Node_def set_score_def
      set_children_def children_generate_children)

theorem best_ai_move_terminal_witness:
  "best_ai_move [0, 0, 0] = (- 1, - 1) \<and> best_ai_move [] = (- 1, - 1)"
  using best_ai_move_terminal [of "[0, 0, 0]"] best_ai_move_terminal [of "[]"]
  by simp

section \<open>The canonical key\<close>

text \<open>
  C4. \<open>key_of\<close> gives a permutation of a pile sequence the key of the sequence, for the
  same player. It is a total function of the sequence and the player, defined on the
  empty and on the all-zero sequence too, and it returns the key only: the caller's
  sequence is an argument it reads.
\<close>

theorem key_of_permutation_invariant:
  assumes "mset q = mset p"
  shows "key_of q pl = key_of p pl"
  using assms key_of_mset by blast

theorem key_of_permutation_invariant_witness:
  "key_of [5, 3, 4] 2 = key_of [3, 4, 5] 2 \<and> key_of [3, 4, 5] 2 = ''3,4,5,|P2''
   \<and> key_of [] 1 = ''|P1'' \<and> key_of [0, 0] 2 = ''0,0,|P2''"
  using key_of_permutation_invariant [of "[5, 3, 4]" "[3, 4, 5]" 2]
  by (simp add: key_of_def to_string_def digits.simps digit_char_def)

section \<open>The score of a state and the scores of its children\<close>

text \<open>
  C5. On a board of non-negative piles below \<^verbatim>\<open>INT_MAX\<close> that is not terminal, the
  score \<open>minimax\<close> returns is the maximum of the scores of the children of the state
  when the AI (player 2) is to move, and their minimum otherwise (so when the human is
  to move). The children are those \<open>generate_children\<close> appends. The score of a child
  is what \<open>minimax\<close> returns for it, both evaluations starting from memo tables that
  prior evaluations left; it is also what the plain recursive minimax without a memo
  table computes for it.
\<close>

theorem minimax_children_extremum:
  assumes "\<forall>v\<in>set p. 0 \<le> v \<and> v < INT_MAX" "\<not> is_terminal p"
    and "populated memo" "populated memo'"
  shows "fst (minimax (Node p pl s []) memo) =
           (if pl = 2
            then Max ((\<lambda>c. fst (minimax c memo')) ` set (children (generate_children (Node p pl s []))))
            else Min ((\<lambda>c. fst (minimax c memo')) ` set (children (generate_children (Node p pl s [])))))
       \<and> fst (minimax (Node p pl s []) memo) =
           (if pl = 2
            then Max ((\<lambda>c. plain_minimax (piles c) (player c)) `
                        set (children (generate_children (Node p pl s []))))
            else Min ((\<lambda>c. plain_minimax (piles c) (player c)) `
                        set (children (generate_children (Node p pl s [])))))"
proof -
  from assms(1) have nn: "\<forall>v\<in>set p. 0 \<le> v" by blast
  have "fst (minimax c memo') = plain_minimax (piles c) (player c)"
    if "c \<in> set (moves_of p pl 0)" for c
    using minimax_plain [OF assms(4), of "piles c" "player c" "score c"] moves_of_fresh [OF that]
    by (cases c) simp
  then have "(\<lambda>c. fst (minimax c memo')) ` set (moves_of p pl 0) = child_values p pl"
    by (simp add: child_values_def)
  then have img: "(\<lambda>c. fst (minimax c memo')) ` set (children (generate_children (Node p pl s []))) =
      child_values p pl"
    by (simp add: children_generate_children)
  have img': "(\<lambda>c. plain_minimax (piles c) (player c)) `
      set (children (generate_children (Node p pl s []))) = child_values p pl"
    by (simp add: children_generate_children child_values_def)
  show ?thesis
    unfolding minimax_plain [OF assms(3)] plain_minimax_children [OF nn assms(2)] img img'
    by (rule conjI) (rule refl)+
qed

theorem minimax_children_extremum_witness:
  "fst (minimax (Node [1, 2] 2 0 []) Map.empty) =
     Max ((\<lambda>c. fst (minimax c Map.empty)) ` set (children (generate_children (Node [1, 2] 2 0 []))))
   \<and> fst (minimax (Node [1, 2] 1 0 []) Map.empty) =
     Min ((\<lambda>c. fst (minimax c Map.empty)) ` set (children (generate_children (Node [1, 2] 1 0 []))))
   \<and> fst (minimax (Node [1, 2] 2 0 []) Map.empty) =
     Max ((\<lambda>c. plain_minimax (piles c) (player c)) `
            set (children (generate_children (Node [1, 2] 2 0 []))))"
  using minimax_children_extremum
      [where p = "[1, 2]" and pl = 2 and s = 0 and memo = Map.empty and memo' = Map.empty]
    minimax_children_extremum
      [where p = "[1, 2]" and pl = 1 and s = 0 and memo = Map.empty and memo' = Map.empty]
    populated_empty
  by (simp add: INT_MAX_def)

section \<open>Memoisation does not change the score\<close>

text \<open>
  C6. For every state whose piles are below \<^verbatim>\<open>INT_MAX\<close> (any player, negative piles
  included), started from a memo table that prior evaluations left, the memoised
  \<open>minimax\<close> returns the score of the plain recursive minimax that has no memo table.
\<close>

theorem minimax_memo_refines_plain:
  assumes "\<forall>v\<in>set p. v < INT_MAX" "populated memo"
  shows "fst (minimax (Node p pl s []) memo) = plain_minimax p pl"
  using assms(2) by (rule minimax_plain)

theorem minimax_memo_refines_plain_witness:
  "fst (minimax (Node [1, 2] 2 0 []) Map.empty) = plain_minimax [1, 2] 2
   \<and> snd (snd (minimax (Node [1, 2] 2 0 []) Map.empty)) (key_of [2, 1] 2) = Some 1
   \<and> fst (minimax (Node [2, 1] 2 0 []) (snd (snd (minimax (Node [1, 2] 2 0 []) Map.empty))))
       = plain_minimax [2, 1] 2
   \<and> plain_minimax [2, 1] 2 = 1"
proof -
  have "populated (snd (snd (minimax (Node [1, 2] 2 0 []) Map.empty)))"
    by (rule populated_minimax) (simp_all add: populated_empty INT_MAX_def)
  moreover have "plain_minimax [2, 1] 2 = 1"
    by code_simp
  moreover have "snd (snd (minimax (Node [1, 2] 2 0 []) Map.empty)) (key_of [2, 1] 2) = Some 1"
    by code_simp
  ultimately show ?thesis
    using minimax_memo_refines_plain [where memo = Map.empty and p = "[1, 2]" and pl = 2 and s = 0]
      minimax_memo_refines_plain
        [where memo = "snd (snd (minimax (Node [1, 2] 2 0 []) Map.empty))" and p = "[2, 1]"
           and pl = 2 and s = 0]
      populated_empty
    by (simp add: INT_MAX_def)
qed

section \<open>Child generation enumerates the legal moves\<close>

text \<open>
  C7. On a node whose piles are below \<^verbatim>\<open>INT_MAX\<close>, the children appended by
  \<open>generate_children\<close> are, in this order: for each pile
  index from the first to the last, for each \<open>take\<close> from 1 to the value of that pile,
  the node whose piles are the parent's with that pile reduced by \<open>take\<close>, whose player
  is the opponent (2 after 1, 1 otherwise), with score 0 and no children. A pile that
  is 0 has no \<open>take\<close> from 1 to 0 and contributes nothing; when every pile is 0 no child
  is appended.
\<close>

theorem generate_children_enumerates:
  assumes "\<forall>v\<in>set (piles node). v < INT_MAX"
  shows "children (generate_children node) =
     children node @
     concat (map (\<lambda>i. map (\<lambda>tk. Node ((piles node)[i := piles node ! i - tk])
                                     (if player node = 1 then 2 else 1) 0 [])
                          [1..piles node ! i])
                 [0..<length (piles node)])
   \<and> ((\<forall>v\<in>set (piles node). v = 0) \<longrightarrow> children (generate_children node) = children node)"
  using moves_of_terminal [of "piles node" "player node" 0]
  by (simp add: children_generate_children moves_of_def child_of_def new_Node_def opponent_def
      is_terminal_iff cong: map_cong)

theorem generate_children_enumerates_witness:
  "children (generate_children (Node [2, 0, 1] 2 0 [])) =
     [Node [1, 0, 1] 1 0 [], Node [0, 0, 1] 1 0 [], Node [2, 0, 0] 1 0 []]
   \<and> children (generate_children (Node [0, 0] 1 0 [])) = []"
  using generate_children_enumerates [of "Node [2, 0, 1] 2 0 []"]
    generate_children_enumerates [of "Node [0, 0] 1 0 []"]
  by (simp add: upto_rec1 upt_conv_Cons INT_MAX_def)

section \<open>The range of the score\<close>

text \<open>
  C8. On a board of non-negative piles below \<^verbatim>\<open>INT_MAX\<close>, started from a memo table that prior evaluations
  left, the score \<open>minimax\<close> returns is -1 or +1, for any player to move. It is neither
  \<open>INT_MIN\<close> nor \<open>INT_MAX\<close>, the values the accumulators start from: a state that is not
  terminal has at least one child.
\<close>

theorem minimax_score_range:
  assumes "\<forall>v\<in>set p. 0 \<le> v \<and> v < INT_MAX" "populated memo"
  shows "fst (minimax (Node p pl s []) memo) \<in> {- 1, 1}
       \<and> fst (minimax (Node p pl s []) memo) \<noteq> INT_MIN
       \<and> fst (minimax (Node p pl s []) memo) \<noteq> INT_MAX
       \<and> (is_terminal p \<or> children (generate_children (Node p pl s [])) \<noteq> [])"
proof -
  from assms(1) have nn: "\<forall>v\<in>set p. 0 \<le> v" by blast
  with plain_minimax_range [of p pl] not_terminal_move [of p pl] assms(2) show ?thesis
    by (auto simp: minimax_plain INT_MIN_def INT_MAX_def children_generate_children)
qed

theorem minimax_score_range_witness:
  "fst (minimax (Node [1, 2] 2 0 []) Map.empty) \<in> {- 1, 1}
   \<and> fst (minimax (Node [1, 2] 2 0 []) Map.empty) \<noteq> INT_MIN
   \<and> fst (minimax (Node [1, 2] 2 0 []) Map.empty) \<noteq> INT_MAX
   \<and> children (generate_children (Node [1, 2] 2 0 [])) \<noteq> []"
  using minimax_score_range [where p = "[1, 2]" and pl = 2 and s = 0 and memo = Map.empty]
    populated_empty
  by (simp add: INT_MAX_def)

section \<open>Termination and recursion depth\<close>

text \<open>
  C9. On a board of non-negative piles below \<^verbatim>\<open>INT_MAX\<close> the loops of the source stay
  in range and \<open>minimax\<close> returns: its definition comes with the proof that every
  recursive call is on a node of smaller height, and on a node without children the
  height is one more than the number of objects on the board. The depth its recursion
  reaches, read off the tree it leaves below the node, is at most the number of objects
  on the board, whatever the memo table holds, and it is that number when the
  evaluation starts from the empty table, as the one \<open>best_ai_move\<close> makes for the root
  does.
\<close>

theorem minimax_depth_total:
  assumes "\<forall>v\<in>set p. 0 \<le> v \<and> v < INT_MAX"
  shows "int (tree_depth (fst (snd (minimax (Node p pl s []) memo)))) \<le> sum_list p
       \<and> int (tree_depth (fst (snd (minimax (Node p pl s []) Map.empty)))) = sum_list p"
proof -
  from assms have nn: "\<forall>v\<in>set p. 0 \<le> v" by blast
  with minimax_tree_depth_le [of p pl s memo] minimax_tree_depth_empty [of p pl s]
    total_objects_int [of p]
  show ?thesis by simp
qed

theorem minimax_depth_total_witness:
  "int (tree_depth (fst (snd (minimax (Node [1, 2] 2 0 []) Map.empty)))) = 3
   \<and> int (tree_depth (fst (snd (minimax (Node [2, 1] 2 0 [])
            (snd (snd (minimax (Node [1, 2] 2 0 []) Map.empty))))))) \<le> 3
   \<and> tree_depth (fst (snd (minimax (Node [2, 1] 2 0 [])
            (snd (snd (minimax (Node [1, 2] 2 0 []) Map.empty)))))) = 0"
proof -
  have "tree_depth (fst (snd (minimax (Node [2, 1] 2 0 [])
            (snd (snd (minimax (Node [1, 2] 2 0 []) Map.empty)))))) = 0"
    by code_simp
  with minimax_depth_total [where p = "[1, 2]" and pl = 2 and s = 0 and memo = Map.empty]
    minimax_depth_total
      [where p = "[2, 1]" and pl = 2 and s = 0
         and memo = "snd (snd (minimax (Node [1, 2] 2 0 []) Map.empty))"]
  show ?thesis by (simp add: INT_MAX_def)
qed

end
